theory Spec2Isabelle
  imports Main "HOL-Library.Monad_Syntax"
begin

section \<open>Buffers and the sink interface\<close>

text \<open>
  A \<^verbatim>\<open>char *buf\<close> is modelled by the bytes of the storage that backs it, as a list.
  The \<^verbatim>\<open>len\<close> argument that travels with it is a separate C \<^verbatim>\<open>int\<close>.  Dereferencing
  \<^verbatim>\<open>buf[i]\<close> outside the backing storage is undefined behaviour in C++; the model
  makes it the value \<open>None\<close>.
\<close>

definition peek :: "string \<Rightarrow> int \<Rightarrow> char option" where
  "peek buf i = (if 0 \<le> i \<and> i < int (length buf) then Some (buf ! nat i) else None)"

definition poke :: "string \<Rightarrow> int \<Rightarrow> char \<Rightarrow> string option" where
  "poke buf i c = (if 0 \<le> i \<and> i < int (length buf) then Some (buf[nat i := c]) else None)"

text \<open>The character constants of the source: \<^verbatim>\<open>'\n'\<close>, \<^verbatim>\<open>'\0'\<close>, \<^verbatim>\<open>' '\<close>,
  \<^verbatim>\<open>'<'\<close> and \<^verbatim>\<open>'>'\<close>, and \<^verbatim>\<open>isdigit\<close> in the C locale.\<close>

definition NL :: char where "NL = CHR 0x0A"
definition NUL :: char where "NUL = CHR 0x00"
definition SP :: char where "SP = CHR '' ''"
definition LT :: char where "LT = CHR ''<''"
definition GT :: char where "GT = CHR ''>''"

definition isdigit :: "char \<Rightarrow> bool" where
  "isdigit c = (c \<in> set ''0123456789'')"

text \<open>
  A call \<^verbatim>\<open>_logger->write(buf + off, n)\<close> of \<^verbatim>\<open>LoggerInterface\<close>: the buffer as it is
  at the time of the call, the offset added to the pointer and the \<^verbatim>\<open>int\<close> length.
\<close>

record write_call =
  wbuf :: string
  woff :: int
  wlen :: int

text \<open>
  The bytes such a call hands to the sink: \<open>wlen\<close> bytes from offset \<open>woff\<close>.  A
  negative length, or a range that leaves the backing storage, denotes no byte string.
\<close>

definition forwarded :: "write_call \<Rightarrow> string option" where
  "forwarded w =
     (if 0 \<le> woff w \<and> 0 \<le> wlen w \<and> woff w + wlen w \<le> int (length (wbuf w))
      then Some (take (nat (wlen w)) (drop (nat (woff w)) (wbuf w)))
      else None)"

text \<open>
  \<^verbatim>\<open>FileLogger::write\<close>: two calls of \<^verbatim>\<open>::write\<close>, the first with a newline, the second
  with the bytes, and the results of both ignored.  The \<^verbatim>\<open>int\<close> length becomes a
  \<^verbatim>\<open>size_t\<close>, so a negative length asks for more bytes than the process has: that second
  \<^verbatim>\<open>::write\<close> fails, nothing but the newline reaches the file, and the function returns
  as usual.  A length that is not negative but leaves the storage stays \<open>None\<close>.
\<close>

definition FileLogger_write :: "string \<Rightarrow> write_call \<Rightarrow> string option" where
  "FileLogger_write file w =
     (if wlen w < 0 then Some (file @ [NL])
      else do {
        bytes \<leftarrow> forwarded w;
        Some (file @ [NL] @ bytes)
      })"

section \<open>The line handlers\<close>

text \<open>\<^verbatim>\<open>StreamHandler::handle\<close> passes its arguments on.\<close>

definition StreamHandler_handle :: "string \<Rightarrow> int \<Rightarrow> (string \<times> write_call) option" where
  "StreamHandler_handle buf len = Some (buf, \<lparr>wbuf = buf, woff = 0, wlen = len\<rparr>)"

text \<open>
  \<^verbatim>\<open>SyslogHandler::handle\<close>.  The \<^verbatim>\<open>do ++start; while (start < len && isdigit(buf[start]))\<close>
  loop increments first and tests afterwards.
\<close>

function skip_digits :: "string \<Rightarrow> int \<Rightarrow> int \<Rightarrow> int option" where
  "skip_digits buf len start =
     (let start' = start + 1 in
      if start' < len then do {
        c \<leftarrow> peek buf start';
        if isdigit c then skip_digits buf len start' else Some start'
      } else Some start')"
  by pat_completeness auto
termination
  by (relation "measure (\<lambda>(buf, len, start). nat (len - start))") auto

text \<open>\<^verbatim>\<open>while (end > 0 && buf[end] == '\n') buf[end--] = '\0';\<close>\<close>

function trim_newlines :: "string \<Rightarrow> int \<Rightarrow> (string \<times> int) option" where
  "trim_newlines buf end =
     (if end > 0 then do {
        c \<leftarrow> peek buf end;
        if c = NL then do {
          buf' \<leftarrow> poke buf end NUL;
          trim_newlines buf' (end - 1)
        } else Some (buf, end)
      } else Some (buf, end))"
  by pat_completeness auto
termination
  by (relation "measure (\<lambda>(buf, end). nat end)") auto

definition skip_priority :: "string \<Rightarrow> int \<Rightarrow> int option" where
  "skip_priority buf len =
     (let start = 0 in
      if start < len then do {
        c \<leftarrow> peek buf start;
        if c = LT then do {
          start \<leftarrow> skip_digits buf len start;
          d \<leftarrow> peek buf start;
          Some (if d = GT then start + 1 else start)
        } else Some start
      } else Some start)"

definition SyslogHandler_handle :: "string \<Rightarrow> int \<Rightarrow> (string \<times> write_call) option" where
  "SyslogHandler_handle buf len = do {
     let end = len - 1;
     start \<leftarrow> skip_priority buf len;
     (buf', end) \<leftarrow> trim_newlines buf end;
     Some (buf', \<lparr>wbuf = buf', woff = start, wlen = end - start\<rparr>)
   }"

text \<open>\<^verbatim>\<open>JournalHandler::handle\<close>: the \<^verbatim>\<open>for\<close> loop from \<open>pos\<close> up to \<open>len\<close>.\<close>

function fold_newlines :: "string \<Rightarrow> int \<Rightarrow> int \<Rightarrow> string option" where
  "fold_newlines buf len pos =
     (if pos < len then do {
        c \<leftarrow> peek buf pos;
        buf' \<leftarrow> (if c = NL then poke buf pos SP else Some buf);
        fold_newlines buf' len (pos + 1)
      } else Some buf)"
  by pat_completeness auto
termination
  by (relation "measure (\<lambda>(buf, len, pos). nat (len - pos))") auto

definition JournalHandler_handle :: "string \<Rightarrow> int \<Rightarrow> (string \<times> write_call) option" where
  "JournalHandler_handle buf len = do {
     buf' \<leftarrow> fold_newlines buf len 0;
     Some (buf', \<lparr>wbuf = buf', woff = 0, wlen = len\<rparr>)
   }"

declare skip_digits.simps [simp del] trim_newlines.simps [simp del] fold_newlines.simps [simp del]

section \<open>The reader\<close>

text \<open>
  What a non-blocking descriptor has to read, followed by nothing more: the unread bytes
  of a stream socket, or the queue of datagrams of a datagram socket.
\<close>

datatype descriptor = Stream string | Dgram "string list"

fun held :: "descriptor \<Rightarrow> string" where
  "held (Stream bytes) = bytes"
| "held (Dgram msgs) = concat msgs"

text \<open>The number of bytes, or of datagrams, still to read: every read with a positive
  result lowers it.\<close>

fun units :: "descriptor \<Rightarrow> nat" where
  "units (Stream bytes) = length bytes"
| "units (Dgram msgs) = length msgs"

text \<open>
  The operating system's \<^verbatim>\<open>::read(fd, buf, count)\<close>.  On a stream it stores up to
  \<open>count\<close> of the unread bytes at the start of \<open>buf\<close> and returns their number, and
  returns 0 when there are none.  On a datagram socket it takes the first datagram off
  the queue, stores up to \<open>count\<close> of its bytes and returns their number, which is 0 for
  an empty datagram; the bytes of the datagram beyond \<open>count\<close> are discarded.  With no
  datagram queued it returns \<open>-1\<close>.  The result is the return value, what the descriptor
  still has to read, and the buffer.
\<close>

fun sys_read :: "descriptor \<Rightarrow> string \<Rightarrow> nat \<Rightarrow> int \<times> descriptor \<times> string" where
  "sys_read (Stream bytes) buf count =
     (if bytes = [] then (0, Stream bytes, buf)
      else let n = min count (length bytes)
           in (int n, Stream (drop n bytes), take n bytes @ drop n buf))"
| "sys_read (Dgram []) buf count = (- 1, Dgram [], buf)"
| "sys_read (Dgram (msg # msgs)) buf count =
     (let n = min count (length msg)
      in (int n, Dgram msgs, take n msg @ drop n buf))"

text \<open>
  \<^verbatim>\<open>SocketReader::read\<close>.  \<open>handle\<close> is the \<^verbatim>\<open>HandlerInterface\<close> held by the reader; it
  may change the buffer and a state \<open>s\<close> of its own.  \<^verbatim>\<open>NELEMS(buf) - 1\<close> is 2047.
\<close>

function SocketReader_read ::
  "(string \<Rightarrow> int \<Rightarrow> 's \<Rightarrow> (string \<times> 's) option) \<Rightarrow> descriptor \<Rightarrow> string \<Rightarrow> 's
     \<Rightarrow> (descriptor \<times> string \<times> 's) option" where
  "SocketReader_read handle sock_fd buf s =
     (case sys_read sock_fd buf 2047 of
        (len, sock_fd', buf') \<Rightarrow>
          if len > 0 then
            (case handle buf' len s of
               None \<Rightarrow> None
             | Some (buf'', s') \<Rightarrow> SocketReader_read handle sock_fd' buf'' s')
          else Some (sock_fd', buf', s))"
  by pat_completeness auto
termination
proof (relation "measure (\<lambda>(handle, sock_fd, buf, s). units sock_fd)")
  show "wf (measure (\<lambda>(handle, sock_fd, buf, s). units sock_fd))" by simp
next
  fix handle :: "string \<Rightarrow> int \<Rightarrow> 's \<Rightarrow> (string \<times> 's) option"
  fix sock_fd sock_fd' :: descriptor and buf buf' buf'' :: string and s s' :: 's
  fix len :: int and x y x2
  assume "(len, x) = sys_read sock_fd buf 2047" "(sock_fd', buf') = x" "0 < len"
  then have "units sock_fd' < units sock_fd"
    by (cases "(sock_fd, buf, 2047 :: nat)" rule: sys_read.cases)
       (auto simp: Let_def split: if_splits)
  then show "((handle, sock_fd', buf'', s'), (handle, sock_fd, buf, s))
      \<in> measure (\<lambda>(handle, sock_fd, buf, s). units sock_fd)"
    by simp
qed

declare SocketReader_read.simps [simp del]

text \<open>A handler that only records the bytes \<^verbatim>\<open>buf[0..len)\<close> of each invocation.\<close>

definition chunk_recorder :: "string \<Rightarrow> int \<Rightarrow> string list \<Rightarrow> (string \<times> string list) option" where
  "chunk_recorder buf len log = Some (buf, log @ [take (nat len) buf])"

text \<open>
  The descriptors on which no read loses or withholds anything: every stream, and a
  datagram socket whose queued datagrams are not empty and no longer than the 2047 bytes
  the reader asks for.
\<close>

fun whole_reads :: "descriptor \<Rightarrow> bool" where
  "whole_reads (Stream bytes) = True"
| "whole_reads (Dgram msgs) = list_all (\<lambda>msg. msg \<noteq> [] \<and> length msg \<le> 2047) msgs"

section \<open>Observers, the registry and the process state\<close>

datatype handler = SyslogHandler | JournalHandler | StreamHandler

datatype kind = SyslogObserver | SocketObserver | StreamObserver | StdoutObserver

text \<open>
  An observer object: its class, its \<^verbatim>\<open>sock_fd\<close>, the handler of its \<^verbatim>\<open>_reader\<close>, and
  \<open>oid\<close>, the identity of the object (the number of the \<^verbatim>\<open>make_shared\<close> allocation
  that created it).
\<close>

record observer =
  kind :: kind
  sock_fd :: int
  reader :: handler
  oid :: nat

datatype runtime_error = SocketFailed | AcceptFailed | EpollWaitFailed

fun what :: "runtime_error \<Rightarrow> string" where
  "what SocketFailed = ''socket failed''"
| "what AcceptFailed = ''accept failed''"
| "what EpollWaitFailed = ''epoll_wait failed''"

text \<open>
  The state of the process: the \<^verbatim>\<open>observers\<close> map of \<^verbatim>\<open>SocketObservable\<close>, the
  descriptors in the interest list of \<^verbatim>\<open>epoll_fd\<close>, the static flag \<^verbatim>\<open>stopped\<close>, the
  bytes written to standard output (by \<^verbatim>\<open>FileLogger\<close> on \<^verbatim>\<open>fileno(stdout)\<close> and by
  \<^verbatim>\<open>cout\<close>) and to \<^verbatim>\<open>cerr\<close>, the descriptors passed to \<^verbatim>\<open>close\<close> so far, and the
  allocation counter.
\<close>

record world =
  observers :: "int \<rightharpoonup> observer"
  watched :: "int set"
  stopped :: bool
  stdout :: string
  stderr :: string
  closes :: "int list"
  next_oid :: nat

definition initial_world :: world where
  "initial_world = \<lparr>observers = Map.empty, watched = {}, stopped = False, stdout = [],
     stderr = [], closes = [], next_oid = 0\<rparr>"

text \<open>
  \<^verbatim>\<open>close(fd)\<close>: the call is recorded, and the kernel drops a closed descriptor from the
  interest list of \<^verbatim>\<open>epoll_fd\<close>.  Every observer class has the destructor
  \<^verbatim>\<open>close(sock_fd)\<close>.  The map holds the only \<^verbatim>\<open>shared_ptr\<close> to a registered observer
  once the scope that created it has ended, so the destructor runs when the map entry is
  erased or assigned another object.
\<close>

definition sys_close :: "int \<Rightarrow> world \<Rightarrow> world" where
  "sys_close fd w = w\<lparr>closes := closes w @ [fd], watched := watched w - {fd}\<rparr>"

definition destroy :: "observer \<Rightarrow> world \<Rightarrow> world" where
  "destroy ob w = sys_close (sock_fd ob) w"

text \<open>\<^verbatim>\<open>SocketObservable::addObserver\<close>; \<open>key\<close> of an observer is its \<open>sock_fd\<close>.\<close>

definition addObserver :: "world \<Rightarrow> observer \<Rightarrow> world" where
  "addObserver w ob =
     (let key = sock_fd ob;
          w1 = (if observers w key = None then w\<lparr>watched := insert key (watched w)\<rparr> else w);
          w2 = (case observers w1 key of
                  None \<Rightarrow> w1
                | Some old \<Rightarrow> if oid old = oid ob then w1 else destroy old w1)
      in w2\<lparr>observers := (observers w2)(key \<mapsto> ob)\<rparr>)"

text \<open>\<^verbatim>\<open>SocketObservable::delObserver(int key)\<close>; the result of \<^verbatim>\<open>epoll_ctl\<close> is ignored.\<close>

definition delObserver :: "world \<Rightarrow> int \<Rightarrow> world" where
  "delObserver w key =
     (let w1 = w\<lparr>watched := watched w - {key}\<rparr>;
          w2 = (case observers w1 key of None \<Rightarrow> w1 | Some old \<Rightarrow> destroy old w1)
      in w2\<lparr>observers := (observers w2)(key := None)\<rparr>)"

text \<open>\<^verbatim>\<open>SocketObservable::stop\<close>, with \<^verbatim>\<open>operator<<\<close> on an \<^verbatim>\<open>int\<close> as decimal digits.\<close>

fun digits :: "nat \<Rightarrow> string" where
  "digits n = (if n < 10 then [''0123456789'' ! n]
               else digits (n div 10) @ [''0123456789'' ! (n mod 10)])"

declare digits.simps [simp del]

definition show_int :: "int \<Rightarrow> string" where
  "show_int i = (if i < 0 then ''-'' @ digits (nat (- i)) else digits (nat i))"

definition stop :: "int \<Rightarrow> world \<Rightarrow> world" where
  "stop signo w =
     (let w1 = w\<lparr>stdout := stdout w @ ''stopped signo = '' @ show_int signo @ [NL]\<rparr>
      in w1\<lparr>stopped := True\<rparr>)"

section \<open>Notification handlers and the dispatch loop\<close>

text \<open>
  What the environment supplies to one iteration of the loop: the signals delivered
  while the process waits, the outcome of \<^verbatim>\<open>epoll_wait\<close>, the value \<^verbatim>\<open>accept4\<close> returns
  if the listener is notified, what the notified descriptor has to read (the datagrams
  queued on a datagram socket; for a stream socket their bytes one after the other), and
  the contents found in the uninitialised \<^verbatim>\<open>char buf[2048]\<close> of \<^verbatim>\<open>SocketReader::read\<close>.
\<close>

datatype signal = SIGHUP | SIGINT | SIGUSR1 | SIGTERM

fun signal_number :: "signal \<Rightarrow> int" where
  "signal_number SIGHUP = 1"
| "signal_number SIGINT = 2"
| "signal_number SIGUSR1 = 10"
| "signal_number SIGTERM = 15"

datatype wait_result = Ready int | Interrupted | WaitFailed

record event =
  signals :: "signal list"
  wait :: wait_result
  accepted :: int
  incoming :: "string list"
  stack :: "nat \<Rightarrow> char"

text \<open>How a run ends early: an uncaught C++ exception, or undefined behaviour.\<close>

datatype abort = Thrown runtime_error | Undefined

text \<open>The dispositions installed at the start of \<^verbatim>\<open>loop\<close>.\<close>

fun deliver :: "signal \<Rightarrow> world \<Rightarrow> world" where
  "deliver SIGUSR1 w = w"
| "deliver SIGHUP w = w"
| "deliver SIGINT w = stop (signal_number SIGINT) w"
| "deliver SIGTERM w = stop (signal_number SIGTERM) w"

text \<open>The handler objects of \<^verbatim>\<open>main\<close>, each writing through the one \<^verbatim>\<open>FileLogger\<close>.\<close>

definition handle :: "handler \<Rightarrow> string \<Rightarrow> int \<Rightarrow> string \<Rightarrow> (string \<times> string) option" where
  "handle h buf len file = do {
     (buf', w) \<leftarrow> (case h of
        SyslogHandler \<Rightarrow> SyslogHandler_handle buf len
      | JournalHandler \<Rightarrow> JournalHandler_handle buf len
      | StreamHandler \<Rightarrow> StreamHandler_handle buf len);
     file' \<leftarrow> FileLogger_write file w;
     Some (buf', file')
   }"

definition reader_read :: "handler \<Rightarrow> descriptor \<Rightarrow> event \<Rightarrow> world \<Rightarrow> abort + world" where
  "reader_read h sock e w =
     (case SocketReader_read (handle h) sock (map (stack e) [0..<2048]) (stdout w) of
        None \<Rightarrow> Inl Undefined
      | Some (rest, buf, file) \<Rightarrow> Inr (w\<lparr>stdout := file\<rparr>))"

text \<open>
  \<^verbatim>\<open>SyslogObserver::notify\<close> and \<^verbatim>\<open>SocketObserver::notify\<close>; their sockets are opened
  with \<^verbatim>\<open>SOCK_DGRAM\<close>.
\<close>

definition SyslogObserver_notify :: "observer \<Rightarrow> event \<Rightarrow> world \<Rightarrow> abort + world" where
  "SyslogObserver_notify ob e w = reader_read (reader ob) (Dgram (incoming e)) e w"

definition SocketObserver_notify :: "observer \<Rightarrow> event \<Rightarrow> world \<Rightarrow> abort + world" where
  "SocketObserver_notify ob e w = reader_read (reader ob) (Dgram (incoming e)) e w"

text \<open>
  \<^verbatim>\<open>StreamObserver::notify\<close>; its socket comes from \<^verbatim>\<open>accept4\<close> on the \<^verbatim>\<open>SOCK_STREAM\<close>
  listener.
\<close>

definition StreamObserver_notify :: "observer \<Rightarrow> event \<Rightarrow> world \<Rightarrow> abort + world" where
  "StreamObserver_notify ob e w =
     (case reader_read (reader ob) (Stream (concat (incoming e))) e w of
        Inl a \<Rightarrow> Inl a
      | Inr w' \<Rightarrow> Inr (delObserver w' (sock_fd ob)))"

text \<open>
  The constructor \<^verbatim>\<open>StreamObserver::StreamObserver\<close> under \<^verbatim>\<open>make_shared\<close>; \<open>fd\<close> is
  what \<^verbatim>\<open>unix_accept\<close> returned.
\<close>

definition StreamObserver_new :: "int \<Rightarrow> handler \<Rightarrow> world \<Rightarrow> runtime_error + observer \<times> world" where
  "StreamObserver_new fd rd w =
     (if fd < 0 then Inl AcceptFailed
      else Inr (\<lparr>kind = StreamObserver, sock_fd = fd, reader = rd, oid = next_oid w\<rparr>,
                w\<lparr>next_oid := Suc (next_oid w)\<rparr>))"

text \<open>\<^verbatim>\<open>StdoutObserver::notify\<close>: nothing catches what the constructor throws.\<close>

definition StdoutObserver_notify :: "observer \<Rightarrow> event \<Rightarrow> world \<Rightarrow> abort + world" where
  "StdoutObserver_notify ob e w =
     (case StreamObserver_new (accepted e) (reader ob) w of
        Inl err \<Rightarrow> Inl (Thrown err)
      | Inr (streamObserver, w') \<Rightarrow> Inr (addObserver w' streamObserver))"

text \<open>The virtual call \<^verbatim>\<open>observer->notify(*this)\<close>.\<close>

definition notify :: "observer \<Rightarrow> event \<Rightarrow> world \<Rightarrow> abort + world" where
  "notify ob e w =
     (case kind ob of
        SyslogObserver \<Rightarrow> SyslogObserver_notify ob e w
      | SocketObserver \<Rightarrow> SocketObserver_notify ob e w
      | StreamObserver \<Rightarrow> StreamObserver_notify ob e w
      | StdoutObserver \<Rightarrow> StdoutObserver_notify ob e w)"

text \<open>
  One iteration of the body of \<^verbatim>\<open>while (!stopped)\<close>.  \<open>ev\<close> is \<^verbatim>\<open>ev.data.fd\<close>, which
  \<^verbatim>\<open>epoll_wait\<close> leaves as it was when it is interrupted.  The result is the list of the
  observers notified in this iteration (none or one) and how the iteration ended.
\<close>

definition cycle :: "int \<Rightarrow> world \<Rightarrow> event \<Rightarrow> observer list \<times> (abort + int \<times> world)" where
  "cycle ev w e =
     (let w1 = fold deliver (signals e) w in
      case wait e of
        WaitFailed \<Rightarrow> ([], Inl (Thrown EpollWaitFailed))
      | r \<Rightarrow>
         (let fd = (case r of Ready fd \<Rightarrow> fd | _ \<Rightarrow> ev) in
          case observers w1 fd of
            None \<Rightarrow> ([], Inr (fd, w1))
          | Some ob \<Rightarrow>
             (case notify ob e w1 of
                Inl a \<Rightarrow> ([ob], Inl a)
              | Inr w2 \<Rightarrow> ([ob], Inr (fd, w2)))))"

text \<open>
  \<^verbatim>\<open>SocketObservable::loop\<close> over the events of a finite stretch of the run: it returns
  the observers notified, in order, and the state reached, or what ended it.
\<close>

fun loop :: "int \<Rightarrow> world \<Rightarrow> event list \<Rightarrow> observer list \<times> (abort + int \<times> world)" where
  "loop ev w [] = ([], Inr (ev, w))"
| "loop ev w (e # es) =
     (if stopped w then ([], Inr (ev, w))
      else case cycle ev w e of
        (obs, Inl a) \<Rightarrow> (obs, Inl a)
      | (obs, Inr (ev', w')) \<Rightarrow>
          (case loop ev' w' es of (obs', r) \<Rightarrow> (obs @ obs', r)))"

section \<open>Start-up\<close>

text \<open>
  \<^verbatim>\<open>unix_open\<close>: \<open>sock\<close> is what \<^verbatim>\<open>socket\<close> returns and \<open>bound\<close> what \<^verbatim>\<open>bind\<close> returns.
\<close>

definition unix_open :: "int \<Rightarrow> int \<Rightarrow> world \<Rightarrow> int \<times> world" where
  "unix_open sock bound w =
     (if sock \<ge> 0 then
        (if bound < 0 then (- 1, sys_close sock w) else (sock, w))
      else (sock, w))"

text \<open>
  The constructors of the three persistent observers under \<^verbatim>\<open>make_shared\<close>.  The state
  is returned in both cases: \<^verbatim>\<open>unix_open\<close> may have closed a descriptor before the throw.
  The calls whose results the constructors ignore (\<^verbatim>\<open>fd_set_nonblock\<close>, \<^verbatim>\<open>symlink\<close>,
  \<^verbatim>\<open>listen\<close>) are left out.
\<close>

definition persistent_new ::
  "kind \<Rightarrow> handler \<Rightarrow> int \<times> int \<Rightarrow> world \<Rightarrow> (runtime_error + observer) \<times> world" where
  "persistent_new k rd env w =
     (case unix_open (fst env) (snd env) w of
        (fd, w') \<Rightarrow>
          if fd < 0 then (Inl SocketFailed, w')
          else (Inr \<lparr>kind = k, sock_fd = fd, reader = rd, oid = next_oid w'\<rparr>,
                w'\<lparr>next_oid := Suc (next_oid w')\<rparr>))"

definition SyslogObserver_new :: "handler \<Rightarrow> int \<times> int \<Rightarrow> world \<Rightarrow> (runtime_error + observer) \<times> world" where
  "SyslogObserver_new = persistent_new SyslogObserver"

definition SocketObserver_new :: "handler \<Rightarrow> int \<times> int \<Rightarrow> world \<Rightarrow> (runtime_error + observer) \<times> world" where
  "SocketObserver_new = persistent_new SocketObserver"

definition StdoutObserver_new :: "handler \<Rightarrow> int \<times> int \<Rightarrow> world \<Rightarrow> (runtime_error + observer) \<times> world" where
  "StdoutObserver_new = persistent_new StdoutObserver"

text \<open>One \<^verbatim>\<open>try { ... addObserver ... } catch (runtime_error &err) { cerr << ... }\<close> block.\<close>

definition try_add :: "(world \<Rightarrow> (runtime_error + observer) \<times> world) \<Rightarrow> world \<Rightarrow> world" where
  "try_add new w =
     (case new w of
        (Inl err, w') \<Rightarrow> w'\<lparr>stderr := stderr w' @ what err @ [NL]\<rparr>
      | (Inr ob, w') \<Rightarrow> addObserver w' ob)"

text \<open>
  \<^verbatim>\<open>main\<close> up to the call of \<^verbatim>\<open>loop\<close>, and the whole of it.  The three pairs are the
  results of \<^verbatim>\<open>socket\<close> and \<^verbatim>\<open>bind\<close> for the syslog, journal and stdout sockets.
\<close>

definition main_setup :: "int \<times> int \<Rightarrow> int \<times> int \<Rightarrow> int \<times> int \<Rightarrow> world" where
  "main_setup syslog journal stdio =
     (let w1 = try_add (SyslogObserver_new SyslogHandler syslog) initial_world;
          w2 = try_add (SocketObserver_new JournalHandler journal) w1;
          w3 = try_add (StdoutObserver_new StreamHandler stdio) w2
      in w3)"

definition main ::
  "int \<times> int \<Rightarrow> int \<times> int \<Rightarrow> int \<times> int \<Rightarrow> int \<Rightarrow> event list
     \<Rightarrow> observer list \<times> (abort + int \<times> world)" where
  "main syslog journal stdio ev es = loop ev (main_setup syslog journal stdio) es"

section \<open>The registry invariant\<close>

text \<open>
  What holds of the registry in every state the program reaches: an observer is stored
  under its own descriptor, it was allocated before the next allocation, the listener
  and the connections it creates carry the pass-through handler, and no object is stored
  under two keys.
\<close>

definition wf_world :: "world \<Rightarrow> bool" where
  "wf_world w \<longleftrightarrow>
     (\<forall>k ob. observers w k = Some ob \<longrightarrow>
        sock_fd ob = k \<and> oid ob < next_oid w \<and>
        (kind ob = StreamObserver \<or> kind ob = StdoutObserver \<longrightarrow> reader ob = StreamHandler)) \<and>
     (\<forall>k k' ob ob'. observers w k = Some ob \<and> observers w k' = Some ob' \<and> oid ob = oid ob'
        \<longrightarrow> k = k')"

text \<open>The object numbered \<open>x\<close> has been allocated and is not in the registry.\<close>

definition unregistered :: "nat \<Rightarrow> world \<Rightarrow> bool" where
  "unregistered x w \<longleftrightarrow>
     x < next_oid w \<and> (\<forall>k ob. observers w k = Some ob \<longrightarrow> oid ob \<noteq> x)"

text \<open>\<^verbatim>\<open>unix_open\<close> returns a descriptor when \<^verbatim>\<open>socket\<close> and \<^verbatim>\<open>bind\<close> both succeed.\<close>

definition opens :: "int \<times> int \<Rightarrow> bool" where
  "opens env \<longleftrightarrow> 0 \<le> fst env \<and> 0 \<le> snd env"

section \<open>Facts about the handlers\<close>

lemma peek_append: "peek (pre @ x # post) (int (length pre)) = Some x"
  by (simp add: peek_def)

lemma poke_append: "poke (pre @ x # post) (int (length pre)) c = Some (pre @ c # post)"
  by (simp add: poke_def)

lemma peek_in_range: "0 \<le> i \<Longrightarrow> i < int (length buf) \<Longrightarrow> \<exists>c. peek buf i = Some c"
  by (simp add: peek_def)

lemma poke_in_range:
  "0 \<le> i \<Longrightarrow> i < int (length buf) \<Longrightarrow> \<exists>buf'. poke buf i c = Some buf' \<and> length buf' = length buf"
  by (simp add: poke_def)

lemma skip_digits_total:
  "0 \<le> start \<Longrightarrow> len \<le> int (length buf) \<Longrightarrow>
     \<exists>s. skip_digits buf len start = Some s \<and> start < s \<and> (s \<le> len \<or> s = start + 1)"
proof (induction buf len start rule: skip_digits.induct)
  case (1 buf len start)
  show ?case
  proof (cases "start + 1 < len")
    case False
    then show ?thesis by (subst skip_digits.simps) (simp add: Let_def)
  next
    case True
    with 1(2,3) obtain c where c: "peek buf (start + 1) = Some c"
      using peek_in_range [of "start + 1" buf] by auto
    show ?thesis
    proof (cases "isdigit c")
      case False
      with True c show ?thesis by (subst skip_digits.simps) (simp add: Let_def)
    next
      case digit: True
      from 1(1) [OF refl True c digit] 1(2,3)
      obtain s where "skip_digits buf len (start + 1) = Some s" "start + 1 < s"
        "s \<le> len \<or> s = start + 1 + 1"
        by auto
      with True c digit show ?thesis
        by (subst skip_digits.simps) (auto simp: Let_def)
    qed
  qed
qed

lemma skip_priority_total:
  assumes "0 < len" and "len < int (length buf)"
  shows "\<exists>s. skip_priority buf len = Some s \<and> 0 \<le> s \<and> s \<le> len + 1"
proof -
  have "(0::int) < int (length buf)" using assms by linarith
  then obtain c where c: "peek buf 0 = Some c"
    by (auto simp: peek_def)
  show ?thesis
  proof (cases "c = LT")
    case False
    with assms c show ?thesis by (simp add: skip_priority_def)
  next
    case True
    obtain s where s: "skip_digits buf len 0 = Some s" "0 < s" "s \<le> len"
      using skip_digits_total [of 0 len buf] assms by auto
    then obtain d where d: "peek buf s = Some d"
      using assms peek_in_range [of s buf] by auto
    with assms c True s show ?thesis by (simp add: skip_priority_def)
  qed
qed

lemma trim_newlines_total:
  "end < int (length buf) \<Longrightarrow>
     \<exists>buf' end'. trim_newlines buf end = Some (buf', end') \<and> length buf' = length buf \<and>
        end' \<le> end \<and> (0 \<le> end \<longrightarrow> 0 \<le> end')"
proof (induction buf "end" rule: trim_newlines.induct)
  case (1 buf "end")
  show ?case
  proof (cases "end > 0")
    case False
    then show ?thesis by (subst trim_newlines.simps) simp
  next
    case True
    with 1(2) obtain c where c: "peek buf end = Some c"
      using peek_in_range [of "end" buf] by auto
    show ?thesis
    proof (cases "c = NL")
      case False
      with True c show ?thesis by (subst trim_newlines.simps) simp
    next
      case nl: True
      from True 1(2) obtain buf1 where b: "poke buf end NUL = Some buf1" "length buf1 = length buf"
        using poke_in_range [of "end" buf NUL] by auto
      from 1(1) [OF True c nl b(1)] b(2) 1(2)
      obtain buf' end' where "trim_newlines buf1 (end - 1) = Some (buf', end')"
        "length buf' = length buf" "end' \<le> end - 1" "0 \<le> end'"
        using True by auto
      with True c nl b show ?thesis
        by (subst trim_newlines.simps) auto
    qed
  qed
qed

lemma FileLogger_write_total:
  "0 \<le> woff w \<Longrightarrow> wlen w < 0 \<or> woff w + wlen w \<le> int (length (wbuf w)) \<Longrightarrow>
     \<exists>file'. FileLogger_write file w = Some file'"
  by (auto simp: FileLogger_write_def forwarded_def)

lemma SyslogHandler_total:
  assumes "0 < len" and "len < int (length buf)"
  shows "\<exists>buf' w. SyslogHandler_handle buf len = Some (buf', w) \<and> length buf' = length buf \<and>
           wbuf w = buf' \<and> 0 \<le> woff w \<and> (wlen w < 0 \<or> woff w + wlen w \<le> int (length buf'))"
proof -
  obtain s where s: "skip_priority buf len = Some s" "0 \<le> s" "s \<le> len + 1"
    using skip_priority_total [OF assms] by auto
  obtain buf' end' where t: "trim_newlines buf (len - 1) = Some (buf', end')"
    "length buf' = length buf" "end' \<le> len - 1"
    using trim_newlines_total [of "len - 1" buf] assms by auto
  show ?thesis
    using s t assms by (auto simp: SyslogHandler_handle_def)
qed

lemma fold_newlines_append:
  "fold_newlines (pre @ xs @ rest) (int (length pre + length xs)) (int (length pre))
     = Some (pre @ map (\<lambda>c. if c = NL then SP else c) xs @ rest)"
proof (induction xs arbitrary: pre)
  case Nil
  show ?case by (subst fold_newlines.simps) simp
next
  case (Cons x xs)
  let ?y = "if x = NL then SP else x"
  have "fold_newlines (pre @ (x # xs) @ rest) (int (length pre + length (x # xs))) (int (length pre))
        = fold_newlines (pre @ ?y # xs @ rest) (int (length pre + length (x # xs))) (int (length pre) + 1)"
    by (subst fold_newlines.simps) (simp add: peek_append poke_append)
  also have "\<dots> = fold_newlines ((pre @ [?y]) @ xs @ rest)
                     (int (length (pre @ [?y]) + length xs)) (int (length (pre @ [?y])))"
    by (simp add: add.commute)
  also have "\<dots> = Some ((pre @ [?y]) @ map (\<lambda>c. if c = NL then SP else c) xs @ rest)"
    by (rule Cons.IH)
  finally show ?case by simp
qed

lemma JournalHandler_total:
  assumes "0 < len" and "len < int (length buf)"
  shows "\<exists>buf' w. JournalHandler_handle buf len = Some (buf', w) \<and> length buf' = length buf \<and>
           wbuf w = buf' \<and> 0 \<le> woff w \<and> (wlen w < 0 \<or> woff w + wlen w \<le> int (length buf'))"
proof -
  define n where "n = nat len"
  have split: "buf = take n buf @ drop n buf" and n: "int (length (take n buf)) = len"
    using assms by (auto simp: n_def)
  from fold_newlines_append [of "[]" "take n buf" "drop n buf"] split n
  have "fold_newlines buf len 0
          = Some (map (\<lambda>c. if c = NL then SP else c) (take n buf) @ drop n buf)"
    by simp
  then show ?thesis using assms by (auto simp: JournalHandler_handle_def)
qed

lemma handle_total:
  assumes "0 < len" and "len < int (length buf)"
  shows "\<exists>buf' out'. handle h buf len out = Some (buf', out') \<and> length buf' = length buf"
proof -
  have "\<exists>buf' w. (case h of SyslogHandler \<Rightarrow> SyslogHandler_handle buf len
            | JournalHandler \<Rightarrow> JournalHandler_handle buf len
            | StreamHandler \<Rightarrow> StreamHandler_handle buf len) = Some (buf', w) \<and>
          length buf' = length buf \<and> wbuf w = buf' \<and> 0 \<le> woff w \<and>
          (wlen w < 0 \<or> woff w + wlen w \<le> int (length buf'))"
    using assms SyslogHandler_total [OF assms] JournalHandler_total [OF assms]
    by (cases h) (auto simp: StreamHandler_handle_def)
  then obtain buf' w where hw: "(case h of SyslogHandler \<Rightarrow> SyslogHandler_handle buf len
            | JournalHandler \<Rightarrow> JournalHandler_handle buf len
            | StreamHandler \<Rightarrow> StreamHandler_handle buf len) = Some (buf', w)"
    and len: "length buf' = length buf"
    and rng: "0 \<le> woff w" "wlen w < 0 \<or> woff w + wlen w \<le> int (length (wbuf w))"
    by auto
  from FileLogger_write_total [OF rng] obtain out' where "FileLogger_write out w = Some out'"
    by blast
  with hw len show ?thesis by (simp add: handle_def)
qed

section \<open>Facts about the reader\<close>

lemma SocketReader_read_Stream_Nil:
  "SocketReader_read h (Stream []) buf s = Some (Stream [], buf, s)"
  by (subst SocketReader_read.simps) simp

lemma SocketReader_read_Stream:
  "bytes \<noteq> [] \<Longrightarrow> SocketReader_read h (Stream bytes) buf s =
     (let n = min 2047 (length bytes); buf' = take n bytes @ drop n buf in
      case h buf' (int n) s of None \<Rightarrow> None
      | Some (buf'', s') \<Rightarrow> SocketReader_read h (Stream (drop n bytes)) buf'' s')"
  by (subst SocketReader_read.simps) (simp add: Let_def)

lemma SocketReader_read_Dgram_Nil:
  "SocketReader_read h (Dgram []) buf s = Some (Dgram [], buf, s)"
  by (subst SocketReader_read.simps) simp

lemma SocketReader_read_Dgram_empty:
  "SocketReader_read h (Dgram ([] # msgs)) buf s = Some (Dgram msgs, buf, s)"
  by (subst SocketReader_read.simps) simp

lemma SocketReader_read_Dgram:
  "msg \<noteq> [] \<Longrightarrow> SocketReader_read h (Dgram (msg # msgs)) buf s =
     (let n = min 2047 (length msg); buf' = take n msg @ drop n buf in
      case h buf' (int n) s of None \<Rightarrow> None
      | Some (buf'', s') \<Rightarrow> SocketReader_read h (Dgram msgs) buf'' s')"
  by (subst SocketReader_read.simps) (simp add: Let_def)

lemma stored_length:
  "xs \<noteq> [] \<Longrightarrow> length buf = 2048 \<Longrightarrow>
     length (take (min 2047 (length xs)) xs @ drop (min 2047 (length xs)) buf) = 2048 \<and>
     0 < int (min 2047 (length xs)) \<and>
     int (min 2047 (length xs))
       < int (length (take (min 2047 (length xs)) xs @ drop (min 2047 (length xs)) buf))"
  by (cases xs) auto

lemma SocketReader_read_total:
  "length buf = 2048 \<Longrightarrow> SocketReader_read (handle h) sock buf out \<noteq> None"
proof (induction "units sock" arbitrary: sock buf out rule: less_induct)
  case less
  show ?case
  proof (cases sock)
    case (Stream bytes)
    show ?thesis
    proof (cases "bytes = []")
      case True
      with Stream show ?thesis by (simp add: SocketReader_read_Stream_Nil)
    next
      case False
      define n where "n = min 2047 (length bytes)"
      define buf1 where "buf1 = take n bytes @ drop n buf"
      from stored_length [OF False less.prems]
      have l: "length buf1 = 2048" "0 < int n" "int n < int (length buf1)"
        by (simp_all add: n_def buf1_def)
      from handle_total [OF l(2,3), of h out] l(1)
      obtain buf2 out2 where call: "handle h buf1 (int n) out = Some (buf2, out2)"
        and l2: "length buf2 = 2048" by auto
      have "units (Stream (drop n bytes)) < units sock"
        using Stream False l(2) by simp
      from less.hyps [OF this l2]
      have "SocketReader_read (handle h) (Stream (drop n bytes)) buf2 out2 \<noteq> None" .
      moreover have "SocketReader_read (handle h) (Stream bytes) buf out
              = SocketReader_read (handle h) (Stream (drop n bytes)) buf2 out2"
        unfolding SocketReader_read_Stream [OF False] Let_def n_def [symmetric] buf1_def [symmetric]
        by (simp only: call option.case prod.case)
      ultimately show ?thesis using Stream by simp
    qed
  next
    case (Dgram msgs)
    show ?thesis
    proof (cases msgs)
      case Nil
      with Dgram show ?thesis by (simp add: SocketReader_read_Dgram_Nil)
    next
      case (Cons msg rest)
      show ?thesis
      proof (cases "msg = []")
        case True
        with Dgram Cons show ?thesis by (simp add: SocketReader_read_Dgram_empty)
      next
        case False
        define n where "n = min 2047 (length msg)"
        define buf1 where "buf1 = take n msg @ drop n buf"
        from stored_length [OF False less.prems]
        have l: "length buf1 = 2048" "0 < int n" "int n < int (length buf1)"
          by (simp_all add: n_def buf1_def)
        from handle_total [OF l(2,3), of h out] l(1)
        obtain buf2 out2 where call: "handle h buf1 (int n) out = Some (buf2, out2)"
          and l2: "length buf2 = 2048" by auto
        have "units (Dgram rest) < units sock"
          using Dgram Cons by simp
        from less.hyps [OF this l2]
        have "SocketReader_read (handle h) (Dgram rest) buf2 out2 \<noteq> None" .
        moreover have "SocketReader_read (handle h) (Dgram (msg # rest)) buf out
                = SocketReader_read (handle h) (Dgram rest) buf2 out2"
          unfolding SocketReader_read_Dgram [OF False] Let_def n_def [symmetric] buf1_def [symmetric]
          by (simp only: call option.case prod.case)
        ultimately show ?thesis using Dgram Cons by simp
      qed
    qed
  qed
qed

lemma reader_read_total: "\<exists>w'. reader_read h sock e w = Inr w'"
  using SocketReader_read_total [of "map (stack e) [0..<2048]" h sock "stdout w"]
  by (auto simp: reader_read_def split: option.splits)

lemma recorder_Stream:
  "\<exists>buf' cs. SocketReader_read chunk_recorder (Stream bytes) buf log = Some (Stream [], buf', log @ cs)
      \<and> concat cs = bytes \<and> (\<forall>c \<in> set cs. c \<noteq> []) \<and> (bytes \<noteq> [] \<longrightarrow> cs \<noteq> [])"
proof (induction bytes arbitrary: buf log rule: length_induct)
  case (1 bytes)
  show ?case
  proof (cases "bytes = []")
    case True
    then show ?thesis by (simp add: SocketReader_read_Stream_Nil)
  next
    case False
    define n where "n = min 2047 (length bytes)"
    define buf1 where "buf1 = take n bytes @ drop n buf"
    have n_pos: "0 < n" using False by (simp add: n_def)
    have chunk: "take n buf1 = take n bytes" by (simp add: buf1_def n_def)
    have shorter: "length (drop n bytes) < length bytes" using False n_pos by simp
    from 1 [rule_format, OF shorter, of buf1 "log @ [take n bytes]"]
    obtain buf' cs where
      rec: "SocketReader_read chunk_recorder (Stream (drop n bytes)) buf1 (log @ [take n bytes])
              = Some (Stream [], buf', (log @ [take n bytes]) @ cs)"
      and cat: "concat cs = drop n bytes" and pos: "\<forall>c \<in> set cs. c \<noteq> []"
      by blast
    have call: "chunk_recorder buf1 (int n) log = Some (buf1, log @ [take n bytes])"
      using chunk by (simp add: chunk_recorder_def)
    have "SocketReader_read chunk_recorder (Stream bytes) buf log
            = SocketReader_read chunk_recorder (Stream (drop n bytes)) buf1 (log @ [take n bytes])"
      unfolding SocketReader_read_Stream [OF False] Let_def n_def [symmetric] buf1_def [symmetric]
      by (simp only: call option.case prod.case)
    with rec have "SocketReader_read chunk_recorder (Stream bytes) buf log
            = Some (Stream [], buf', log @ (take n bytes # cs))"
      by simp
    moreover have "concat (take n bytes # cs) = bytes" using cat by simp
    moreover have "\<forall>c \<in> set (take n bytes # cs). c \<noteq> []"
      using pos False n_pos by auto
    ultimately show ?thesis by blast
  qed
qed

lemma recorder_Dgram:
  "list_all (\<lambda>msg. msg \<noteq> [] \<and> length msg \<le> 2047) msgs \<Longrightarrow>
     \<exists>buf'. SocketReader_read chunk_recorder (Dgram msgs) buf log = Some (Dgram [], buf', log @ msgs)"
proof (induction msgs arbitrary: buf log)
  case Nil
  show ?case by (simp add: SocketReader_read_Dgram_Nil)
next
  case (Cons msg msgs)
  then have ne: "msg \<noteq> []" and short: "min 2047 (length msg) = length msg"
    and rest: "list_all (\<lambda>msg. msg \<noteq> [] \<and> length msg \<le> 2047) msgs"
    by auto
  define buf1 where "buf1 = msg @ drop (length msg) buf"
  have call: "chunk_recorder buf1 (int (length msg)) log = Some (buf1, log @ [msg])"
    by (simp add: chunk_recorder_def buf1_def)
  from Cons.IH [OF rest, of buf1 "log @ [msg]"]
  obtain buf' where "SocketReader_read chunk_recorder (Dgram msgs) buf1 (log @ [msg])
      = Some (Dgram [], buf', (log @ [msg]) @ msgs)"
    by blast
  moreover have "SocketReader_read chunk_recorder (Dgram (msg # msgs)) buf log
      = SocketReader_read chunk_recorder (Dgram msgs) buf1 (log @ [msg])"
    unfolding SocketReader_read_Dgram [OF ne] Let_def short
    by (simp add: buf1_def [symmetric] call)
  ultimately show ?case by simp
qed

lemma JournalHandler_append:
  "JournalHandler_handle (input @ rest) (int (length input))
     = Some (map (\<lambda>c. if c = NL then SP else c) input @ rest,
             \<lparr>wbuf = map (\<lambda>c. if c = NL then SP else c) input @ rest, woff = 0,
              wlen = int (length input)\<rparr>)"
  using fold_newlines_append [of "[]" input rest]
  by (simp add: JournalHandler_handle_def)

lemma journal_datagram:
  assumes "msg \<noteq> []" and "length msg \<le> 2047"
  shows "SocketReader_read (handle JournalHandler) (Dgram [msg]) buf out
     = Some (Dgram [], map (\<lambda>c. if c = NL then SP else c) msg @ drop (length msg) buf,
             out @ [NL] @ map (\<lambda>c. if c = NL then SP else c) msg)"
proof -
  have n: "min 2047 (length msg) = length msg" using assms(2) by simp
  have call: "handle JournalHandler (msg @ drop (length msg) buf) (int (length msg)) out
      = Some (map (\<lambda>c. if c = NL then SP else c) msg @ drop (length msg) buf,
              out @ [NL] @ map (\<lambda>c. if c = NL then SP else c) msg)"
    by (simp add: handle_def JournalHandler_append FileLogger_write_def forwarded_def)
  show ?thesis
    unfolding SocketReader_read_Dgram [OF assms(1)] Let_def n
    by (simp add: call SocketReader_read_Dgram_Nil)
qed

section \<open>Facts about the registry and the loop\<close>

lemma sys_close_fields [simp]:
  "observers (sys_close fd w) = observers w"
  "next_oid (sys_close fd w) = next_oid w"
  "stopped (sys_close fd w) = stopped w"
  "stdout (sys_close fd w) = stdout w"
  "stderr (sys_close fd w) = stderr w"
  "closes (sys_close fd w) = closes w @ [fd]"
  "watched (sys_close fd w) = watched w - {fd}"
  by (simp_all add: sys_close_def)

lemma addObserver_fields [simp]:
  "observers (addObserver w ob) = (observers w)(sock_fd ob \<mapsto> ob)"
  "next_oid (addObserver w ob) = next_oid w"
  "stopped (addObserver w ob) = stopped w"
  "stdout (addObserver w ob) = stdout w"
  "stderr (addObserver w ob) = stderr w"
  by (simp_all add: addObserver_def Let_def destroy_def split: option.splits)

lemma addObserver_watched:
  "watched (addObserver w ob) =
     (case observers w (sock_fd ob) of
        None \<Rightarrow> insert (sock_fd ob) (watched w)
      | Some old \<Rightarrow> if oid old = oid ob then watched w else watched w - {sock_fd old})"
  by (simp add: addObserver_def Let_def destroy_def split: option.splits)

lemma addObserver_closes:
  "closes (addObserver w ob) =
     (case observers w (sock_fd ob) of
        None \<Rightarrow> closes w
      | Some old \<Rightarrow> if oid old = oid ob then closes w else closes w @ [sock_fd old])"
  by (simp add: addObserver_def Let_def destroy_def split: option.splits)

lemma delObserver_fields [simp]:
  "observers (delObserver w k) = (observers w)(k := None)"
  "next_oid (delObserver w k) = next_oid w"
  "watched (delObserver w k)
     = watched w - {k} - (case observers w k of None \<Rightarrow> {} | Some old \<Rightarrow> {sock_fd old})"
  "closes (delObserver w k) = closes w @ (case observers w k of None \<Rightarrow> [] | Some old \<Rightarrow> [sock_fd old])"
  "stopped (delObserver w k) = stopped w"
  "stdout (delObserver w k) = stdout w"
  "stderr (delObserver w k) = stderr w"
  by (simp_all add: delObserver_def Let_def destroy_def split: option.splits)

lemma stop_fields [simp]:
  "observers (stop n w) = observers w"
  "next_oid (stop n w) = next_oid w"
  "watched (stop n w) = watched w"
  "closes (stop n w) = closes w"
  "stderr (stop n w) = stderr w"
  "stopped (stop n w) = True"
  by (simp_all add: stop_def Let_def)

lemma deliver_fields [simp]:
  "observers (deliver sg w) = observers w"
  "next_oid (deliver sg w) = next_oid w"
  "watched (deliver sg w) = watched w"
  "closes (deliver sg w) = closes w"
  "stderr (deliver sg w) = stderr w"
  by (cases sg; simp)+

lemma fold_deliver_fields [simp]:
  "observers (fold deliver sgs w) = observers w"
  "next_oid (fold deliver sgs w) = next_oid w"
  "watched (fold deliver sgs w) = watched w"
  "closes (fold deliver sgs w) = closes w"
  "stderr (fold deliver sgs w) = stderr w"
  by (induction sgs arbitrary: w; simp)+

lemma reader_read_fields:
  assumes "reader_read h sock e w = Inr w'"
  shows "observers w' = observers w" "next_oid w' = next_oid w" "watched w' = watched w"
    "closes w' = closes w" "stopped w' = stopped w" "stderr w' = stderr w"
  using assms by (auto simp: reader_read_def split: option.splits)

lemma initial_world_fields:
  "observers initial_world = Map.empty" "watched initial_world = {}"
  "stopped initial_world = False" "stderr initial_world = []" "next_oid initial_world = 0"
  by (simp_all add: initial_world_def)

text \<open>No step of the loop is undefined behaviour.\<close>

lemma notify_defined: "notify ob e w \<noteq> Inl Undefined"
proof (cases "kind ob")
  case SyslogObserver
  then show ?thesis
    using reader_read_total [of "reader ob" "Dgram (incoming e)" e w]
    by (auto simp: notify_def SyslogObserver_notify_def)
next
  case SocketObserver
  then show ?thesis
    using reader_read_total [of "reader ob" "Dgram (incoming e)" e w]
    by (auto simp: notify_def SocketObserver_notify_def)
next
  case StreamObserver
  then show ?thesis
    using reader_read_total [of "reader ob" "Stream (concat (incoming e))" e w]
    by (auto simp: notify_def StreamObserver_notify_def)
next
  case StdoutObserver
  then show ?thesis
    by (auto simp: notify_def StdoutObserver_notify_def StreamObserver_new_def split: if_splits)
qed

lemma cycle_defined: "snd (cycle ev w e) \<noteq> Inl Undefined"
  using notify_defined
  by (auto simp: cycle_def Let_def split: wait_result.splits option.splits sum.splits)

lemma loop_defined: "snd (loop ev w es) \<noteq> Inl Undefined"
proof (induction es arbitrary: ev w)
  case Nil
  show ?case by simp
next
  case (Cons e es)
  obtain obs r where c: "cycle ev w e = (obs, r)" by (cases "cycle ev w e")
  with cycle_defined [of ev w e] have r: "r \<noteq> Inl Undefined" by simp
  show ?case
  proof (cases r)
    case (Inl a)
    with c r show ?thesis by simp
  next
    case (Inr p)
    obtain ev' w' where p: "p = (ev', w')" by (cases p)
    with c Inr Cons.IH [of ev' w'] show ?thesis
      by (auto split: prod.splits)
  qed
qed

text \<open>An observer registered under the descriptor that is reported ready is notified.\<close>

lemma loop_notifies:
  assumes "\<not> stopped w" and "observers w fd = Some ob" and "wait e = Ready fd"
  shows "\<exists>obs. fst (loop ev w (e # es)) = ob # obs"
proof -
  have "fst (cycle ev w e) = [ob]"
    using assms(2,3) by (simp add: cycle_def Let_def split: sum.splits)
  then obtain r where c: "cycle ev w e = ([ob], r)"
    by (cases "cycle ev w e") simp
  show ?thesis
  proof (cases r)
    case (Inl a)
    with c assms(1) show ?thesis by simp
  next
    case (Inr p)
    with c assms(1) show ?thesis by (auto split: prod.splits)
  qed
qed

text \<open>An object that is no longer registered is not notified again.\<close>

lemma reader_read_unregistered:
  "reader_read h sock e w = Inr w' \<Longrightarrow> unregistered x w' = unregistered x w"
  by (auto simp: reader_read_def unregistered_def split: option.splits; blast)

lemma delObserver_unregistered:
  "unregistered x w \<Longrightarrow> unregistered x (delObserver w k)"
  by (auto simp: unregistered_def split: if_splits)

lemma notify_unregistered:
  assumes "unregistered x w" and "notify ob e w = Inr w'"
  shows "unregistered x w'"
proof (cases "kind ob")
  case SyslogObserver
  with assms show ?thesis
    by (simp add: notify_def SyslogObserver_notify_def reader_read_unregistered)
next
  case SocketObserver
  with assms show ?thesis
    by (simp add: notify_def SocketObserver_notify_def reader_read_unregistered)
next
  case StreamObserver
  with assms show ?thesis
    by (auto simp: notify_def StreamObserver_notify_def reader_read_unregistered
          delObserver_unregistered split: sum.splits)
next
  case StdoutObserver
  with assms show ?thesis
    by (auto simp: notify_def StdoutObserver_notify_def StreamObserver_new_def unregistered_def
          split: sum.splits if_splits; blast)
qed

lemma cycle_unregistered:
  assumes "unregistered x w" and "cycle ev w e = (obs, r)"
  shows "x \<notin> oid ` set obs" and "\<And>ev' w'. r = Inr (ev', w') \<Longrightarrow> unregistered x w'"
proof -
  define w1 where "w1 = fold deliver (signals e) w"
  have start: "unregistered x w1"
    using assms(1) by (simp add: unregistered_def w1_def)
  have other: "oid ob \<noteq> x" if "observers w1 fd = Some ob" for fd ob
    using start that by (auto simp: unregistered_def)
  show "x \<notin> oid ` set obs"
    using assms(2) other
    by (auto simp: cycle_def Let_def w1_def [symmetric]
          split: wait_result.splits option.splits sum.splits; blast)
  show "unregistered x w'" if "r = Inr (ev', w')" for ev' w'
    using assms(2) start that
    by (auto simp: cycle_def Let_def w1_def [symmetric]
          split: wait_result.splits option.splits sum.splits
          dest: notify_unregistered)
qed

lemma loop_unregistered:
  "unregistered x w \<Longrightarrow> x \<notin> oid ` set (fst (loop ev w es))"
proof (induction es arbitrary: ev w)
  case Nil
  then show ?case by simp
next
  case (Cons e es)
  obtain obs r where c: "cycle ev w e = (obs, r)" by (cases "cycle ev w e")
  note here = cycle_unregistered [OF Cons.prems c]
  show ?case
  proof (cases r)
    case (Inl a)
    with c here(1) show ?thesis by simp
  next
    case (Inr p)
    obtain ev' w' where p: "p = (ev', w')" by (cases p)
    from here(2) Inr p have "unregistered x w'" by simp
    then have "x \<notin> oid ` set (fst (loop ev' w' es))" by (rule Cons.IH)
    with c Inr p here(1) show ?thesis
      by (auto split: prod.splits)
  qed
qed

text \<open>The registry invariant holds after start-up and is kept by the loop.\<close>

lemma wf_world_stdout [simp]: "wf_world (w\<lparr>stdout := s\<rparr>) = wf_world w"
  by (simp add: wf_world_def)

lemma wf_world_stderr [simp]: "wf_world (w\<lparr>stderr := s\<rparr>) = wf_world w"
  by (simp add: wf_world_def)

lemma wf_world_sys_close [simp]: "wf_world (sys_close fd w) = wf_world w"
  by (simp add: wf_world_def)

lemma wf_world_deliver: "wf_world (fold deliver sgs w) = wf_world w"
  by (simp add: wf_world_def)

lemma wf_world_reader_read: "reader_read h sock e w = Inr w' \<Longrightarrow> wf_world w' = wf_world w"
  by (auto simp: reader_read_def split: option.splits)

lemma wf_world_delObserver: "wf_world w \<Longrightarrow> wf_world (delObserver w k)"
  unfolding wf_world_def by (simp split: if_splits)

lemma wf_world_addObserver:
  assumes wf: "wf_world w"
    and hd: "kind ob = StreamObserver \<or> kind ob = StdoutObserver \<longrightarrow> reader ob = StreamHandler"
    and new: "oid ob = next_oid w"
  shows "wf_world (addObserver (w\<lparr>next_oid := Suc (next_oid w)\<rparr>) ob)"
proof -
  have old: "sock_fd ob' = k \<and> oid ob' < next_oid w \<and>
      (kind ob' = StreamObserver \<or> kind ob' = StdoutObserver \<longrightarrow> reader ob' = StreamHandler)"
    if "observers w k = Some ob'" for k ob'
    using wf that unfolding wf_world_def by blast
  have uniq: "k = k'"
    if "observers w k = Some a" "observers w k' = Some b" "oid a = oid b" for k k' a b
    using wf that unfolding wf_world_def by blast
  show ?thesis
    unfolding wf_world_def
  proof (rule conjI; intro allI impI)
    fix k ob'
    assume "observers (addObserver (w\<lparr>next_oid := Suc (next_oid w)\<rparr>) ob) k = Some ob'"
    then have "ob' = ob \<and> k = sock_fd ob \<or> observers w k = Some ob'"
      by (auto split: if_splits)
    then show "sock_fd ob' = k \<and> oid ob' < next_oid (addObserver (w\<lparr>next_oid := Suc (next_oid w)\<rparr>) ob) \<and>
      (kind ob' = StreamObserver \<or> kind ob' = StdoutObserver \<longrightarrow> reader ob' = StreamHandler)"
      using hd new old [of k ob'] by (auto simp: less_Suc_eq)
  next
    fix k k' a b
    assume "observers (addObserver (w\<lparr>next_oid := Suc (next_oid w)\<rparr>) ob) k = Some a \<and>
       observers (addObserver (w\<lparr>next_oid := Suc (next_oid w)\<rparr>) ob) k' = Some b \<and> oid a = oid b"
    then have a: "a = ob \<and> k = sock_fd ob \<or> observers w k = Some a \<and> k \<noteq> sock_fd ob"
      and b: "b = ob \<and> k' = sock_fd ob \<or> observers w k' = Some b \<and> k' \<noteq> sock_fd ob"
      and eq: "oid a = oid b"
      by (auto split: if_splits)
    from a b eq show "k = k'"
      using new old [of k a] old [of k' b] uniq [of k a k' b] by auto
  qed
qed

lemma wf_world_notify:
  assumes "wf_world w" and "observers w fd = Some ob" and "notify ob e w = Inr w'"
  shows "wf_world w'"
proof (cases "kind ob")
  case SyslogObserver
  with assms show ?thesis
    by (simp add: notify_def SyslogObserver_notify_def wf_world_reader_read)
next
  case SocketObserver
  with assms show ?thesis
    by (simp add: notify_def SocketObserver_notify_def wf_world_reader_read)
next
  case StreamObserver
  with assms show ?thesis
    by (auto simp: notify_def StreamObserver_notify_def wf_world_reader_read
          wf_world_delObserver split: sum.splits)
next
  case StdoutObserver
  with assms(1,2) have "reader ob = StreamHandler" by (auto simp: wf_world_def)
  with StdoutObserver assms(1,3) show ?thesis
    by (auto simp: notify_def StdoutObserver_notify_def StreamObserver_new_def
          split: if_splits intro!: wf_world_addObserver)
qed

lemma wf_world_cycle:
  assumes "wf_world w" and "cycle ev w e = (obs, Inr (ev', w'))"
  shows "wf_world w'"
  using assms
  by (auto simp: cycle_def Let_def wf_world_deliver
        split: wait_result.splits option.splits sum.splits
        intro: wf_world_notify [where w = "fold deliver (signals e) w"])

lemma wf_world_loop:
  "wf_world w \<Longrightarrow> loop ev w es = (obs, Inr (ev', w')) \<Longrightarrow> wf_world w'"
proof (induction es arbitrary: ev w obs)
  case Nil
  then show ?case by simp
next
  case (Cons e es)
  show ?case
  proof (cases "stopped w")
    case True
    with Cons.prems show ?thesis by simp
  next
    case False
    obtain obs1 r where c: "cycle ev w e = (obs1, r)" by (cases "cycle ev w e")
    with Cons.prems(2) False obtain ev1 w1 where r: "r = Inr (ev1, w1)"
      by (cases r) auto
    from Cons.prems(1) c r have "wf_world w1" by (auto intro: wf_world_cycle)
    moreover from Cons.prems(2) False c r obtain obs2 where "loop ev1 w1 es = (obs2, Inr (ev', w'))"
      by (auto split: prod.splits)
    ultimately show ?thesis by (rule Cons.IH)
  qed
qed

lemma wf_world_initial: "wf_world initial_world"
  by (simp add: wf_world_def initial_world_def)

lemma wf_world_try_add:
  assumes "wf_world w" and "k \<noteq> StreamObserver" and "k = StdoutObserver \<longrightarrow> rd = StreamHandler"
  shows "wf_world (try_add (persistent_new k rd env) w)"
proof -
  obtain fd w1 where u: "unix_open (fst env) (snd env) w = (fd, w1)"
    by (cases "unix_open (fst env) (snd env) w")
  then have w1: "wf_world w1"
    using assms(1) by (auto simp: unix_open_def split: if_splits)
  show ?thesis
    using u w1 assms(2,3)
    by (auto simp: try_add_def persistent_new_def intro!: wf_world_addObserver)
qed

lemma wf_world_main_setup: "wf_world (main_setup syslog journal stdio)"
  by (simp add: main_setup_def Let_def SyslogObserver_new_def SocketObserver_new_def
        StdoutObserver_new_def wf_world_try_add wf_world_initial)

text \<open>Start-up, one \<^verbatim>\<open>try\<close> block at a time.\<close>

lemma opens_unix_open: "opens env \<longleftrightarrow> 0 \<le> fst (unix_open (fst env) (snd env) w)"
  by (auto simp: opens_def unix_open_def)

lemma try_add_opens:
  "opens env \<Longrightarrow> try_add (persistent_new k h env) w =
     addObserver (w\<lparr>next_oid := Suc (next_oid w)\<rparr>)
       \<lparr>kind = k, sock_fd = fst env, reader = h, oid = next_oid w\<rparr>"
  by (simp add: opens_def try_add_def persistent_new_def unix_open_def)

lemma try_add_fails:
  "\<not> opens env \<Longrightarrow>
     observers (try_add (persistent_new k h env) w) = observers w \<and>
     watched (try_add (persistent_new k h env) w)
       = (if 0 \<le> fst env then watched w - {fst env} else watched w) \<and>
     next_oid (try_add (persistent_new k h env) w) = next_oid w \<and>
     stopped (try_add (persistent_new k h env) w) = stopped w \<and>
     stderr (try_add (persistent_new k h env) w) = stderr w @ ''socket failed'' @ [NL]"
  by (auto simp: opens_def try_add_def persistent_new_def unix_open_def)

lemma main_setup_running: "\<not> stopped (main_setup syslog journal stdio)"
  by (cases "opens syslog"; cases "opens journal"; cases "opens stdio")
     (simp_all add: main_setup_def Let_def SyslogObserver_new_def SocketObserver_new_def
        StdoutObserver_new_def try_add_opens try_add_fails initial_world_fields)

lemma accept_failure_aborts:
  assumes "observers w fd = Some ob" and "kind ob = StdoutObserver" and "wait e = Ready fd"
    and "accepted e < 0" and "\<not> stopped w"
  shows "loop ev w (e # es) = ([ob], Inl (Thrown AcceptFailed))"
  using assms
  by (simp add: cycle_def Let_def notify_def StdoutObserver_notify_def StreamObserver_new_def)

lemma main_setup_all_open:
  "observers (main_setup (3, 0) (4, 0) (5, 0)) 5
     = Some \<lparr>kind = StdoutObserver, sock_fd = 5, reader = StreamHandler, oid = 2\<rparr>"
  "\<not> stopped (main_setup (3, 0) (4, 0) (5, 0))"
  by (simp_all add: main_setup_def Let_def SyslogObserver_new_def SocketObserver_new_def
    StdoutObserver_new_def try_add_opens opens_def initial_world_fields)

lemma journal_served:
  assumes "\<not> stopped w"
    and "observers w fd = Some ob" and "kind ob = SocketObserver" and "reader ob = JournalHandler"
    and "wait e = Ready fd" and "signals e = []" and "incoming e = [msg]"
    and "msg \<noteq> []" and "length msg \<le> 2047"
  shows "loop ev w [e]
     = ([ob], Inr (fd, w\<lparr>stdout := stdout w @ [NL] @ map (\<lambda>c. if c = NL then SP else c) msg\<rparr>))"
  using assms
  by (simp add: cycle_def Let_def notify_def SocketObserver_notify_def reader_read_def
        journal_datagram)

section \<open>The claims\<close>

subsection \<open>Line handlers\<close>

text \<open>
  C1.  The syslog handler, given the bytes \<^verbatim>\<open><13>hello\n\<close>, should forward \<^verbatim>\<open>hello\<close>, and
  given bytes with no priority tag should forward them without their trailing newlines.
  The code passes \<^verbatim>\<open>end - start\<close> as the length although \<^verbatim>\<open>end\<close> is the index of the
  last byte kept, so one byte less is forwarded: \<^verbatim>\<open>hell\<close> in the first case, and
  \<^verbatim>\<open>ab\<close> for the input \<^verbatim>\<open>abc\n\<close>.
\<close>

theorem SyslogHandler_drops_last_byte:
  "map_option (forwarded \<circ> snd) (SyslogHandler_handle (''<13>hello'' @ [NL]) 10)
     = Some (Some ''hell'') \<and>
   map_option (forwarded \<circ> snd) (SyslogHandler_handle (''abc'' @ [NL]) 4)
     = Some (Some ''ab'')"
  by code_simp

text \<open>
  C10.  Every index the syslog handler reads or writes should lie in \<open>[0, len)\<close>, also
  when the input is \<^verbatim>\<open><\<close> followed by digits up to its end.  On \<^verbatim>\<open><12\<close> with \<open>len = 3\<close>
  the digit loop stops at \<open>start = 3\<close> and the test \<^verbatim>\<open>buf[start] == '>'\<close> then reads index 3:
  with storage of exactly 3 bytes the access is outside it, and with a fourth byte
  \<^verbatim>\<open>>\<close> left in the storage the handler skips it and passes the length \<open>-2\<close> to the sink.
\<close>

theorem SyslogHandler_reads_past_len:
  "skip_digits ''<12'' 3 0 = Some 3 \<and> peek ''<12'' 3 = None \<and>
   SyslogHandler_handle ''<12'' 3 = None \<and>
   map_option snd (SyslogHandler_handle ''<12>'' 3)
     = Some \<lparr>wbuf = ''<12>'', woff = 4, wlen = - 2\<rparr>"
  by code_simp

text \<open>
  C6.  For every input, the journal handler forwards the input with each newline byte
  replaced by a space, every other byte unchanged and the length unchanged.  \<open>rest\<close> is
  whatever follows the \<open>len\<close> input bytes in the buffer; it is left as it is.
\<close>

theorem JournalHandler_folds_newlines:
  "JournalHandler_handle (input @ rest) (int (length input))
     = Some (map (\<lambda>c. if c = NL then SP else c) input @ rest,
             \<lparr>wbuf = map (\<lambda>c. if c = NL then SP else c) input @ rest, woff = 0,
              wlen = int (length input)\<rparr>) \<and>
   map_option (forwarded \<circ> snd) (JournalHandler_handle (input @ rest) (int (length input)))
     = Some (Some (map (\<lambda>c. if c = NL then SP else c) input)) \<and>
   length (map (\<lambda>c. if c = NL then SP else c) input) = length input"
  using fold_newlines_append [of "[]" input rest]
  by (simp add: JournalHandler_handle_def forwarded_def)

text \<open>C6, at the input \<^verbatim>\<open>line one\nline two\<close>: the handler forwards \<^verbatim>\<open>line one line two\<close>.\<close>

theorem JournalHandler_folds_newlines_witness:
  "map_option (forwarded \<circ> snd) (JournalHandler_handle (''line one'' @ [NL] @ ''line two'') 17)
     = Some (Some ''line one line two'')"
  using JournalHandler_folds_newlines [of "''line one'' @ [NL] @ ''line two''" "[]"]
  by (simp add: NL_def SP_def forwarded_def)

subsection \<open>The reader\<close>

text \<open>
  C5, as stated: draining any descriptor that holds \<open>k > 0\<close> bytes and then nothing
  hands those \<open>k\<close> bytes to the handler.  It does not hold on the datagram sockets the
  program drains.  With one datagram of 2048 bytes queued, \<^verbatim>\<open>::read(fd, buf, 2047)\<close>
  returns its first 2047 bytes and the kernel discards the rest: the handler is invoked
  once, with 2047 bytes.  With an empty datagram queued before the datagram \<^verbatim>\<open>abc\<close>, the
  first read returns 0 and the drain ends with no invocation and \<^verbatim>\<open>abc\<close> unread.
\<close>

theorem SocketReader_read_datagram_counterexample:
  "SocketReader_read chunk_recorder (Dgram [replicate 2048 (CHR ''a'')]) (replicate 2048 NUL) []
     = Some (Dgram [], replicate 2047 (CHR ''a'') @ [NUL], [replicate 2047 (CHR ''a'')]) \<and>
   length (held (Dgram [replicate 2048 (CHR ''a'')])) = 2048 \<and>
   length (concat [replicate 2047 (CHR ''a'')]) = 2047 \<and>
   SocketReader_read chunk_recorder (Dgram [[], ''abc'']) ''xxxxx'' []
     = Some (Dgram [''abc''], ''xxxxx'', [])"
proof -
  have ne: "replicate 2048 (CHR ''a'') \<noteq> []" by simp
  show ?thesis
    by (simp add: SocketReader_read_Dgram [OF ne] SocketReader_read_Dgram_Nil
          SocketReader_read_Dgram_empty chunk_recorder_def Let_def)
qed

text \<open>
  C5, amended: for every stream descriptor, and for every datagram descriptor whose
  queued datagrams are each between 1 and 2047 bytes long, that holds \<open>k > 0\<close> bytes and
  then nothing, one drain invokes the handler one or more times, each time with a
  positive number of bytes, the bytes of the invocations in order are the \<open>k\<close> bytes,
  and the drain returns with nothing left unread.  The invocations are those seen by a
  handler that records its arguments; \<open>buf\<close> is whatever the buffer held before.
\<close>

theorem SocketReader_read_delivers_all:
  assumes "held sock \<noteq> []" and "whole_reads sock"
  shows "\<exists>sock' buf' chunks. SocketReader_read chunk_recorder sock buf [] = Some (sock', buf', chunks)
     \<and> held sock' = [] \<and> chunks \<noteq> [] \<and> (\<forall>c \<in> set chunks. c \<noteq> []) \<and> concat chunks = held sock"
proof (cases sock)
  case (Stream bytes)
  with assms recorder_Stream [of bytes buf "[]"] show ?thesis by auto
next
  case (Dgram msgs)
  with assms recorder_Dgram [of msgs buf "[]"] show ?thesis
    by (auto simp: list_all_iff)
qed

text \<open>
  C5, amended, at the datagrams \<^verbatim>\<open>ab\<close> and \<^verbatim>\<open>c\<close> queued on a datagram socket and at the
  bytes \<^verbatim>\<open>abc\<close> pending on a stream.
\<close>

theorem SocketReader_read_delivers_all_witness:
  "held (Dgram [''ab'', ''c'']) \<noteq> [] \<and> whole_reads (Dgram [''ab'', ''c'']) \<and>
   held (Stream ''abc'') \<noteq> [] \<and> whole_reads (Stream ''abc'') \<and>
   (\<exists>sock' buf' chunks. SocketReader_read chunk_recorder (Dgram [''ab'', ''c'']) ''xxxxx'' []
        = Some (sock', buf', chunks)
      \<and> held sock' = [] \<and> chunks \<noteq> [] \<and> (\<forall>c \<in> set chunks. c \<noteq> []) \<and> concat chunks = ''abc'') \<and>
   (\<exists>sock' buf' chunks. SocketReader_read chunk_recorder (Stream ''abc'') ''xxxxx'' []
        = Some (sock', buf', chunks)
      \<and> held sock' = [] \<and> chunks \<noteq> [] \<and> (\<forall>c \<in> set chunks. c \<noteq> []) \<and> concat chunks = ''abc'')"
  using SocketReader_read_delivers_all [of "Dgram [''ab'', ''c'']" "''xxxxx''"]
    SocketReader_read_delivers_all [of "Stream ''abc''" "''xxxxx''"]
  by simp

subsection \<open>The registry\<close>

text \<open>
  C2, as stated: registering an endpoint whose descriptor is already a key fails and
  leaves the stored endpoint as it was.  It does not hold: with descriptor 5 registered
  for one observer, \<^verbatim>\<open>addObserver\<close> of another observer with descriptor 5 returns normally
  and the entry for 5 is no longer the original observer.
\<close>

theorem addObserver_duplicate_counterexample:
  "observers
     (addObserver
        \<lparr>observers = [5 \<mapsto> \<lparr>kind = SocketObserver, sock_fd = 5, reader = JournalHandler, oid = 0\<rparr>],
         watched = {5}, stopped = False, stdout = [], stderr = [], closes = [], next_oid = 2\<rparr>
        \<lparr>kind = StreamObserver, sock_fd = 5, reader = StreamHandler, oid = 1\<rparr>) 5
   \<noteq> Some \<lparr>kind = SocketObserver, sock_fd = 5, reader = JournalHandler, oid = 0\<rparr>"
  by simp

text \<open>
  C2, amended: for every registry state and every endpoint whose descriptor is already
  a key, \<^verbatim>\<open>addObserver\<close> does not fail and makes no subscription; it stores the new
  endpoint in place of the original one, leaving the other entries, the flag and the
  output streams as they were.  The original endpoint, when it is another object, is
  destroyed by the assignment: its descriptor is closed, and with that leaves the
  interest list of the readiness-notification handle.
\<close>

theorem addObserver_duplicate_replaces:
  "observers w (sock_fd ob) = Some old \<Longrightarrow>
     observers (addObserver w ob) = (observers w)(sock_fd ob \<mapsto> ob) \<and>
     watched (addObserver w ob)
       = (if oid old = oid ob then watched w else watched w - {sock_fd old}) \<and>
     closes (addObserver w ob)
       = (if oid old = oid ob then closes w else closes w @ [sock_fd old]) \<and>
     stopped (addObserver w ob) = stopped w \<and>
     stdout (addObserver w ob) = stdout w \<and> stderr (addObserver w ob) = stderr w"
  by (simp add: addObserver_watched addObserver_closes)

text \<open>
  C2, amended, at the state and endpoint of the counterexample: descriptor 5 ends up
  registered for the new endpoint, closed, and in no interest list.
\<close>

theorem addObserver_duplicate_replaces_witness:
  "(let old = \<lparr>kind = SocketObserver, sock_fd = 5, reader = JournalHandler, oid = 0\<rparr>;
        w = \<lparr>observers = [5 \<mapsto> old],
             watched = {5}, stopped = False, stdout = [], stderr = [], closes = [], next_oid = 2\<rparr>;
        ob = \<lparr>kind = StreamObserver, sock_fd = 5, reader = StreamHandler, oid = 1\<rparr>
    in observers w (sock_fd ob) = Some old \<and>
       observers (addObserver w ob) = [5 \<mapsto> ob] \<and>
       watched (addObserver w ob) = {} \<and>
       closes (addObserver w ob) = [5])"
  using addObserver_duplicate_replaces
    [of "\<lparr>observers = [5 \<mapsto> \<lparr>kind = SocketObserver, sock_fd = 5, reader = JournalHandler, oid = 0\<rparr>],
          watched = {5}, stopped = False, stdout = [], stderr = [], closes = [], next_oid = 2\<rparr>"
        "\<lparr>kind = StreamObserver, sock_fd = 5, reader = StreamHandler, oid = 1\<rparr>"
        "\<lparr>kind = SocketObserver, sock_fd = 5, reader = JournalHandler, oid = 0\<rparr>"]
  by (simp add: Let_def)

text \<open>
  C8.  For every registry state and every descriptor that is not a key, \<^verbatim>\<open>delObserver\<close>
  returns normally and leaves the mapping unchanged.  Nothing is closed either; the only
  trace is the \<^verbatim>\<open>EPOLL_CTL_DEL\<close> request for that descriptor.
\<close>

theorem delObserver_absent_noop:
  "observers w key = None \<Longrightarrow>
     delObserver w key = w\<lparr>watched := watched w - {key}\<rparr> \<and>
     observers (delObserver w key) = observers w \<and> closes (delObserver w key) = closes w"
proof -
  assume absent: "observers w key = None"
  then have "(observers w)(key := None) = observers w" by (simp add: fun_upd_idem_iff)
  with absent show ?thesis by (simp add: delObserver_def Let_def)
qed

text \<open>C8, at the empty registry and descriptor 7.\<close>

theorem delObserver_absent_noop_witness:
  "observers initial_world 7 = None \<and>
   delObserver initial_world 7 = initial_world\<lparr>watched := watched initial_world - {7}\<rparr> \<and>
   observers (delObserver initial_world 7) = observers initial_world \<and>
   closes (delObserver initial_world 7) = closes initial_world"
  using delObserver_absent_noop [of initial_world 7] by (simp add: initial_world_def)

subsection \<open>The signal handler\<close>

text \<open>
  C7, as stated: the handler of the interrupt and terminate signals sets the flag and
  does nothing else.  It does not hold: \<^verbatim>\<open>stop\<close> also writes to standard output, so the
  state after it is not the state before with only the flag set.
\<close>

theorem stop_writes_counterexample:
  "stop 2 initial_world \<noteq> initial_world\<lparr>stopped := True\<rparr>"
proof
  assume "stop 2 initial_world = initial_world\<lparr>stopped := True\<rparr>"
  then have "stdout (stop 2 initial_world) = stdout (initial_world\<lparr>stopped := True\<rparr>)"
    by simp
  then show False by (simp add: stop_def initial_world_def)
qed

text \<open>
  C7, amended: the handler appends the line \<^verbatim>\<open>stopped signo = N\<close>, with \<open>N\<close> the signal
  number in decimal, to standard output and sets the flag; it changes nothing else.  For
  the terminate signal, number 15, the line is \<^verbatim>\<open>stopped signo = 15\<close>.
\<close>

theorem stop_effect:
  "stop signo w
     = w\<lparr>stdout := stdout w @ ''stopped signo = '' @ show_int signo @ [NL], stopped := True\<rparr> \<and>
   stdout (stop (signal_number SIGTERM) initial_world) = ''stopped signo = 15'' @ [NL]"
  by (simp add: stop_def initial_world_def show_int_def digits.simps)

subsection \<open>The listener and its connections\<close>

text \<open>
  C3.  When \<^verbatim>\<open>accept4\<close> fails on a notification of the listener, no connection observer
  should be created, no error should leave the notification handler, and the loop should
  go on.  In the code the constructor of \<^verbatim>\<open>StreamObserver\<close> throws \<^verbatim>\<open>accept failed\<close> and
  neither \<^verbatim>\<open>StdoutObserver::notify\<close> nor \<^verbatim>\<open>loop\<close> nor \<^verbatim>\<open>main\<close> catches it.  With all
  three sockets open (descriptors 3, 4 and 5), a notification for the listener with a
  failing accept ends the run with that exception; the datagram that is ready on
  descriptor 4 afterwards is never handled.
\<close>

theorem accept_failure_ends_loop:
  "main (3, 0) (4, 0) (5, 0) 0
     [\<lparr>signals = [], wait = Ready 5, accepted = - 1, incoming = [], stack = (\<lambda>i. NUL)\<rparr>,
      \<lparr>signals = [], wait = Ready 4, accepted = - 1, incoming = [''hi''], stack = (\<lambda>i. NUL)\<rparr>]
   = ([\<lparr>kind = StdoutObserver, sock_fd = 5, reader = StreamHandler, oid = 2\<rparr>],
      Inl (Thrown AcceptFailed))"
  unfolding main_def
  by (rule accept_failure_aborts [OF main_setup_all_open(1) _ _ _ main_setup_all_open(2)]) simp_all

text \<open>
  C4.  For a connection observer that is registered (in a state satisfying the registry
  invariant), its notification handler, whatever the peer has sent and whether or not it
  has closed, returns normally with the observer's key erased from the registry and its
  descriptor removed from the interest list and closed.  However the loop goes on from
  there, whatever the environment does, that observer is never again among the
  observers notified; and the loop goes on through every event unless the stop flag is
  set or the code throws: no event, and no datagram, ends it in any other way.
\<close>

theorem StreamObserver_one_shot:
  assumes wf: "wf_world w" and reg: "observers w fd = Some ob"
    and conn: "kind ob = StreamObserver"
  shows "\<exists>w'. notify ob e w = Inr w'
            \<and> observers w' fd = None \<and> fd \<notin> watched w' \<and> closes w' = closes w @ [fd]
            \<and> (\<forall>ev es. oid ob \<notin> oid ` set (fst (loop ev w' es))
                        \<and> snd (loop ev w' es) \<noteq> Inl Undefined)"
proof -
  from wf reg conn have key: "sock_fd ob = fd" and alloc: "oid ob < next_oid w"
    by (auto simp: wf_world_def)
  from wf reg have only: "k = fd" if "observers w k = Some ob'" "oid ob' = oid ob" for k ob'
    using that unfolding wf_world_def by blast
  obtain w2 where w2: "reader_read (reader ob) (Stream (concat (incoming e))) e w = Inr w2"
    using reader_read_total by blast
  note same = reader_read_fields [OF w2]
  define w' where "w' = delObserver w2 fd"
  have run: "notify ob e w = Inr w'"
    using conn key w2 by (simp add: notify_def StreamObserver_notify_def w'_def)
  have gone: "observers w' fd = None" by (simp add: w'_def)
  have unsub: "fd \<notin> watched w'" by (simp add: w'_def)
  have shut: "closes w' = closes w @ [fd]"
    using reg key same by (simp add: w'_def)
  have "unregistered (oid ob) w'"
    unfolding unregistered_def
  proof (intro conjI allI impI)
    show "oid ob < next_oid w'" using alloc same by (simp add: w'_def)
  next
    fix k ob'
    assume stored: "observers w' k = Some ob'"
    then have "k \<noteq> fd" and "observers w k = Some ob'"
      using same by (auto simp: w'_def split: if_splits)
    with only show "oid ob' \<noteq> oid ob" by blast
  qed
  then have "\<forall>ev es. oid ob \<notin> oid ` set (fst (loop ev w' es))
                        \<and> snd (loop ev w' es) \<noteq> Inl Undefined"
    using loop_unregistered loop_defined by blast
  with run gone unsub shut show ?thesis by blast
qed

text \<open>
  C4, at a state with the listener on descriptor 5 and a connection on descriptor 6 that
  has the bytes \<^verbatim>\<open>abc\<close> to read.
\<close>

theorem StreamObserver_one_shot_witness:
  "(let c = \<lparr>kind = StreamObserver, sock_fd = 6, reader = StreamHandler, oid = 3\<rparr>;
        w = \<lparr>observers = [5 \<mapsto> \<lparr>kind = StdoutObserver, sock_fd = 5, reader = StreamHandler, oid = 2\<rparr>,
                           6 \<mapsto> c],
             watched = {5, 6}, stopped = False, stdout = [], stderr = [], closes = [], next_oid = 4\<rparr>;
        e = \<lparr>signals = [], wait = Ready 6, accepted = - 1, incoming = [''abc''], stack = (\<lambda>i. NUL)\<rparr>
    in wf_world w \<and> observers w 6 = Some c \<and> kind c = StreamObserver \<and>
       (\<exists>w'. notify c e w = Inr w'
            \<and> observers w' 6 = None \<and> 6 \<notin> watched w' \<and> closes w' = closes w @ [6]
            \<and> (\<forall>ev es. oid c \<notin> oid ` set (fst (loop ev w' es))
                        \<and> snd (loop ev w' es) \<noteq> Inl Undefined)))"
proof -
  define c where "c = \<lparr>kind = StreamObserver, sock_fd = 6, reader = StreamHandler, oid = 3\<rparr>"
  define w where "w = \<lparr>observers = [5 \<mapsto> \<lparr>kind = StdoutObserver, sock_fd = 5, reader = StreamHandler, oid = 2\<rparr>,
                           6 \<mapsto> c],
             watched = {5, 6}, stopped = False, stdout = [], stderr = [], closes = [], next_oid = 4\<rparr>"
  define e where "e = \<lparr>signals = [], wait = Ready 6, accepted = - 1, incoming = [''abc''], stack = (\<lambda>i. NUL)\<rparr>"
  have wf: "wf_world w" by (auto simp: wf_world_def w_def c_def split: if_splits)
  have reg: "observers w 6 = Some c" by (simp add: w_def)
  have conn: "kind c = StreamObserver" by (simp add: c_def)
  from StreamObserver_one_shot [OF wf reg conn, of e] wf reg conn
  show ?thesis unfolding Let_def c_def [symmetric] w_def [symmetric] e_def [symmetric] by blast
qed

subsection \<open>Start-up\<close>

text \<open>
  C9.  Whatever \<^verbatim>\<open>socket\<close> and \<^verbatim>\<open>bind\<close> return for the three persistent endpoints, as
  long as the kernel gives out no descriptor that an earlier endpoint still holds open:
  \<^verbatim>\<open>cerr\<close> receives one line \<^verbatim>\<open>socket failed\<close> for each endpoint whose construction fails
  and nothing else; no observer of the class of a failed endpoint is in the registry;
  every endpoint whose construction succeeds is in the registry under its descriptor,
  with its own handler, and subscribed; \<^verbatim>\<open>main\<close> goes on to the loop on that registry
  with the stop flag clear; and the loop runs: when a registered descriptor is reported
  ready, its observer is notified.
\<close>

theorem main_setup_survives_failure:
  assumes "opens syslog \<longrightarrow> fst journal \<noteq> fst syslog \<and> fst stdio \<noteq> fst syslog"
    and "opens journal \<longrightarrow> fst stdio \<noteq> fst journal"
  shows "let w = main_setup syslog journal stdio in
     stderr w = concat (map (\<lambda>env. if opens env then [] else what SocketFailed @ [NL])
                          [syslog, journal, stdio]) \<and>
     (\<forall>(k, h, env) \<in> set [(SyslogObserver, SyslogHandler, syslog),
                            (SocketObserver, JournalHandler, journal),
                            (StdoutObserver, StreamHandler, stdio)].
        if opens env
        then (\<exists>n. observers w (fst env) = Some \<lparr>kind = k, sock_fd = fst env, reader = h, oid = n\<rparr>)
               \<and> fst env \<in> watched w
        else (\<forall>fd ob. observers w fd = Some ob \<longrightarrow> kind ob \<noteq> k)) \<and>
     \<not> stopped w \<and>
     main syslog journal stdio ev es = loop ev w es \<and>
     (\<forall>fd ob e. observers w fd = Some ob \<and> wait e = Ready fd \<longrightarrow>
        (\<exists>obs. fst (main syslog journal stdio ev (e # es)) = ob # obs))"
proof -
  note defs = main_setup_def Let_def SyslogObserver_new_def SocketObserver_new_def
    StdoutObserver_new_def try_add_opens try_add_fails initial_world_fields addObserver_watched
  have regs: "stderr (main_setup syslog journal stdio)
        = concat (map (\<lambda>env. if opens env then [] else what SocketFailed @ [NL])
                          [syslog, journal, stdio]) \<and>
     (\<forall>(k, h, env) \<in> set [(SyslogObserver, SyslogHandler, syslog),
                            (SocketObserver, JournalHandler, journal),
                            (StdoutObserver, StreamHandler, stdio)].
        if opens env
        then (\<exists>n. observers (main_setup syslog journal stdio) (fst env)
                     = Some \<lparr>kind = k, sock_fd = fst env, reader = h, oid = n\<rparr>)
               \<and> fst env \<in> watched (main_setup syslog journal stdio)
        else (\<forall>fd ob. observers (main_setup syslog journal stdio) fd = Some ob \<longrightarrow> kind ob \<noteq> k))"
    using assms
    by (cases "opens syslog"; cases "opens journal"; cases "opens stdio")
       (simp_all add: defs)
  have served: "\<exists>obs. fst (main syslog journal stdio ev (e # es)) = ob # obs"
    if "observers (main_setup syslog journal stdio) fd = Some ob" "wait e = Ready fd" for fd ob e
    unfolding main_def using main_setup_running that by (rule loop_notifies)
  have runs: "main syslog journal stdio ev es = loop ev (main_setup syslog journal stdio) es"
    by (simp add: main_def)
  show ?thesis
    unfolding Let_def using regs served main_setup_running runs by blast
qed

text \<open>
  C9, when \<^verbatim>\<open>socket\<close> fails for the syslog endpoint and the other two open descriptors
  4 and 5: the journal datagram \<^verbatim>\<open>a\nb\<close> that then arrives on descriptor 4 is handled,
  and \<^verbatim>\<open>a b\<close> reaches standard output after the separator.
\<close>

theorem main_setup_survives_failure_witness:
  "\<not> opens (- 1, 0) \<and> opens (4, 0) \<and> opens (5, 0) \<and>
   fst (5 :: int, 0 :: int) \<noteq> fst (4 :: int, 0 :: int) \<and>
   (let w = main_setup (- 1, 0) (4, 0) (5, 0);
        e = \<lparr>signals = [], wait = Ready 4, accepted = - 1, incoming = [''a'' @ [NL] @ ''b''],
             stack = (\<lambda>i. NUL)\<rparr>
    in stderr w = ''socket failed'' @ [NL] \<and>
      (\<forall>fd ob. observers w fd = Some ob \<longrightarrow> kind ob \<noteq> SyslogObserver) \<and>
      (\<exists>n. observers w 4 = Some \<lparr>kind = SocketObserver, sock_fd = 4, reader = JournalHandler, oid = n\<rparr>) \<and>
      4 \<in> watched w \<and>
      (\<exists>n. observers w 5 = Some \<lparr>kind = StdoutObserver, sock_fd = 5, reader = StreamHandler, oid = n\<rparr>) \<and>
      5 \<in> watched w \<and>
      \<not> stopped w \<and>
      (\<exists>n. main (- 1, 0) (4, 0) (5, 0) 0 [e]
         = ([\<lparr>kind = SocketObserver, sock_fd = 4, reader = JournalHandler, oid = n\<rparr>],
            Inr (4, w\<lparr>stdout := stdout w @ [NL] @ ''a b''\<rparr>))))"
proof -
  define w where "w = main_setup (- 1, 0) (4, 0) (5, 0)"
  define e where "e = \<lparr>signals = [], wait = Ready 4, accepted = - 1,
     incoming = [''a'' @ [NL] @ ''b''], stack = (\<lambda>i. NUL)\<rparr>"
  have hyp1: "opens (- 1, 0) \<longrightarrow> fst (4 :: int, 0 :: int) \<noteq> fst (- 1 :: int, 0 :: int)
       \<and> fst (5 :: int, 0 :: int) \<noteq> fst (- 1 :: int, 0 :: int)"
    and hyp2: "opens (4, 0) \<longrightarrow> fst (5 :: int, 0 :: int) \<noteq> fst (4 :: int, 0 :: int)"
    by simp_all
  from main_setup_survives_failure [OF hyp1 hyp2, of 0 "[]"]
  have facts: "stderr w = ''socket failed'' @ [NL]"
    "\<forall>fd ob. observers w fd = Some ob \<longrightarrow> kind ob \<noteq> SyslogObserver"
    "\<exists>n. observers w 4 = Some \<lparr>kind = SocketObserver, sock_fd = 4, reader = JournalHandler, oid = n\<rparr>"
    "4 \<in> watched w"
    "\<exists>n. observers w 5 = Some \<lparr>kind = StdoutObserver, sock_fd = 5, reader = StreamHandler, oid = n\<rparr>"
    "5 \<in> watched w" "\<not> stopped w"
    by (simp_all add: opens_def Let_def w_def)
  from facts(3) obtain n where
    reg: "observers w 4 = Some \<lparr>kind = SocketObserver, sock_fd = 4, reader = JournalHandler, oid = n\<rparr>"
    by blast
  have "loop 0 w [e]
     = ([\<lparr>kind = SocketObserver, sock_fd = 4, reader = JournalHandler, oid = n\<rparr>],
        Inr (4, w\<lparr>stdout := stdout w @ [NL] @ map (\<lambda>c. if c = NL then SP else c) (''a'' @ [NL] @ ''b'')\<rparr>))"
    by (rule journal_served [OF facts(7) reg]) (simp_all add: e_def)
  then have run: "\<exists>n. main (- 1, 0) (4, 0) (5, 0) 0 [e]
         = ([\<lparr>kind = SocketObserver, sock_fd = 4, reader = JournalHandler, oid = n\<rparr>],
            Inr (4, w\<lparr>stdout := stdout w @ [NL] @ ''a b''\<rparr>))"
    by (auto simp: main_def w_def NL_def SP_def)
  have inst: "\<not> opens (- 1, 0)" "opens (4, 0)" "opens (5, 0)"
    "fst (5 :: int, 0 :: int) \<noteq> fst (4 :: int, 0 :: int)"
    by (simp_all add: opens_def)
  show ?thesis
    unfolding Let_def w_def [symmetric] e_def [symmetric]
    using inst facts run by blast
qed

end
